theory Spec2Isabelle
  imports Complex_Main
begin

section \<open>JavaScript values\<close>

text \<open>
  The dashboard server (\<^verbatim>\<open>src/unnamed/part_000\<close>) stores and forwards whatever
  \<^verbatim>\<open>JSON.parse\<close> returns, so the payloads are modelled as JavaScript values: the six
  JSON kinds, \<^verbatim>\<open>Date\<close> objects (the server stamps records with \<^verbatim>\<open>new Date()\<close>) and
  \<^verbatim>\<open>undefined\<close> (what reading a missing property yields, and what a subscriber may send
  as an argument). A number is a rational: every finite double is one, and \<^verbatim>\<open>===\<close> on
  finite doubles is equality of their values. A \<^verbatim>\<open>Date\<close> carries its millisecond value.
  An object is the list of its own enumerable properties in creation order. Strings are
  HOL strings.

  JavaScript enumerates the integer-like keys of an object before the others; the list
  keeps them where they were created. The only enumeration the server depends on is
  \<^verbatim>\<open>Object.keys(dashboardData.sensors)\<close>, whose keys all start with \<^verbatim>\<open>sensor_\<close> and so
  are enumerated in creation order.
\<close>

datatype js =
    JUndefined
  | JNull
  | JBool bool
  | JNum rat
  | JStr string
  | JDate nat
  | JArr "js list"
  | JObj "(string \<times> js) list"

type_synonym obj = "(string \<times> js) list"

text \<open>\<^verbatim>\<open>o[k]\<close> for an own property: \<^verbatim>\<open>undefined\<close> when the object has no such key.\<close>

definition get_prop :: "obj \<Rightarrow> string \<Rightarrow> js" where
  "get_prop ps k = (case map_of ps k of None \<Rightarrow> JUndefined | Some v \<Rightarrow> v)"

text \<open>
  \<^verbatim>\<open>o[k] = v\<close>: an existing key keeps its place and takes the new value, a new key goes
  to the end.
\<close>

fun set_prop :: "string \<Rightarrow> js \<Rightarrow> obj \<Rightarrow> obj" where
  "set_prop k v [] = [(k, v)]"
| "set_prop k v (p # ps) = (if fst p = k then (k, v) # ps else p # set_prop k v ps)"

text \<open>\<^verbatim>\<open>delete o[k]\<close> and \<^verbatim>\<open>Object.keys(o)\<close>.\<close>

definition del_prop :: "string \<Rightarrow> obj \<Rightarrow> obj" where
  "del_prop k ps = filter (\<lambda>p. fst p \<noteq> k) ps"

definition keys :: "obj \<Rightarrow> string list" where
  "keys ps = map fst ps"

text \<open>
  Decimal rendering of a non-negative integer, as the template literals
  \<^verbatim>\<open>`sensor_${Date.now()}`\<close> and \<^verbatim>\<open>`alert_${Date.now()}`\<close> and the index keys of arrays
  produce it.
\<close>

definition digit :: "nat \<Rightarrow> char" where
  "digit d = char_of (48 + d)"

function dec :: "nat \<Rightarrow> string" where
  "dec n = (if n < 10 then [digit n] else dec (n div 10) @ [digit (n mod 10)])"
  by pat_completeness auto
termination
  by (relation "measure id") auto

declare dec.simps [simp del]

text \<open>
  The own enumerable properties that an object spread \<^verbatim>\<open>{...data}\<close> copies: those of an
  object, the indexed elements of an array, the indexed characters of a string, and
  nothing for \<^verbatim>\<open>null\<close>, \<^verbatim>\<open>undefined\<close>, booleans, numbers and dates.
\<close>

fun own_props :: "js \<Rightarrow> obj" where
  "own_props (JObj ps) = ps"
| "own_props (JArr xs) = zip (map dec [0..<length xs]) xs"
| "own_props (JStr s) = zip (map dec [0..<length s]) (map (\<lambda>c. JStr [c]) s)"
| "own_props _ = []"

text \<open>\<^verbatim>\<open>{...acc, ...data}\<close>: the properties of \<open>data\<close> are set on \<open>acc\<close> one by one.\<close>

definition spread :: "obj \<Rightarrow> js \<Rightarrow> obj" where
  "spread acc data = foldl (\<lambda>ob p. set_prop (fst p) (snd p) ob) acc (own_props data)"

text \<open>
  \<^verbatim>\<open>a === b\<close> between a stored value and a value that comes from elsewhere (a string
  literal, a request parameter, a subscriber's argument). Objects, arrays and dates
  compare by reference, and two values of different origin are never the same reference.
\<close>

fun strict_eq :: "js \<Rightarrow> js \<Rightarrow> bool" where
  "strict_eq JUndefined JUndefined = True"
| "strict_eq JNull JNull = True"
| "strict_eq (JBool a) (JBool b) = (a = b)"
| "strict_eq (JNum a) (JNum b) = (a = b)"
| "strict_eq (JStr a) (JStr b) = (a = b)"
| "strict_eq _ _ = False"

text \<open>
  Exceptions, and how a call ends. A handler that throws has already made the
  assignments before the throwing expression, so the state travels with the completion.
\<close>

datatype exn = SyntaxError | TypeError

datatype completion = Normal | Throw exn

text \<open>
  \<^verbatim>\<open>data.severity\<close>: a \<^verbatim>\<open>TypeError\<close> on \<^verbatim>\<open>null\<close> and \<^verbatim>\<open>undefined\<close>, the own property of an
  object, and \<^verbatim>\<open>undefined\<close> on every other value (no array, string, number, boolean or
  date has a property of that name).
\<close>

fun data_severity :: "js \<Rightarrow> exn + js" where
  "data_severity JNull = Inl TypeError"
| "data_severity JUndefined = Inl TypeError"
| "data_severity (JObj ps) = Inr (get_prop ps ''severity'')"
| "data_severity _ = Inr JUndefined"

section \<open>The dashboard state\<close>

record statistics =
  totalAlerts :: nat
  criticalAlerts :: nat
  anomaliesDetected :: nat

record dashboardData =
  sensors :: obj
  alerts :: "obj list"
  predictions :: obj
  systemStatus :: obj
  statistics :: statistics

text \<open>
  The state at process start; the arguments are the three \<^verbatim>\<open>new Date()\<close> values of the
  initialiser. The counters are JavaScript numbers; they are naturals here, exact below
  \<open>2 ^ 53\<close> increments.
\<close>

definition dashboardData0 :: "nat \<Rightarrow> nat \<Rightarrow> nat \<Rightarrow> dashboardData" where
  "dashboardData0 t1 t2 t5 =
     \<lparr> sensors = [],
       alerts = [],
       predictions = [],
       systemStatus =
         [(''layer1'', JObj [(''status'', JStr ''online''), (''lastUpdate'', JDate t1)]),
          (''layer2'', JObj [(''status'', JStr ''online''), (''lastUpdate'', JDate t2)]),
          (''layer5'', JObj [(''status'', JStr ''online''), (''lastUpdate'', JDate t5)])],
       statistics = \<lparr> totalAlerts = 0, criticalAlerts = 0, anomaliesDetected = 0 \<rparr> \<rparr>"

text \<open>What a handler does to the outside: broadcasts, replies, log lines.\<close>

datatype effect =
    IoEmit string js
  | SocketEmit string dashboardData
  | ConsoleError string
  | ResJson nat js

section \<open>Data handlers\<close>

text \<open>
  \<open>handleSensorData\<close>; \<open>now\<close> is the value of \<^verbatim>\<open>Date.now()\<close> and \<open>stamp\<close> that of
  \<^verbatim>\<open>new Date()\<close>.
\<close>

definition sensor_record :: "nat \<Rightarrow> js \<Rightarrow> js" where
  "sensor_record stamp data =
     JObj (set_prop ''status'' (JStr ''active'')
            (set_prop ''timestamp'' (JDate stamp) (spread [] data)))"

definition handleSensorData :: "nat \<Rightarrow> nat \<Rightarrow> js \<Rightarrow> dashboardData \<Rightarrow> dashboardData" where
  "handleSensorData now stamp data st =
     (let sensorId = ''sensor_'' @ dec now;
          st1 = st\<lparr>sensors := set_prop sensorId (sensor_record stamp data) (sensors st)\<rparr>;
          sensorKeys = keys (sensors st1)
      in if length sensorKeys > 100
         then st1\<lparr>sensors := del_prop (sensorKeys ! 0) (sensors st1)\<rparr>
         else st1)"

text \<open>
  \<open>handleEmergencyAlert\<close>. The alert is in the list and counted before
  \<^verbatim>\<open>data.severity\<close> is read; when that read throws, the rest of the body (the critical
  counter, the truncation, the broadcast) does not run.
\<close>

definition alert_record :: "nat \<Rightarrow> nat \<Rightarrow> js \<Rightarrow> obj" where
  "alert_record now stamp data =
     set_prop ''acknowledged'' (JBool False)
       (set_prop ''timestamp'' (JDate stamp)
         (spread [(''id'', JStr (''alert_'' @ dec now))] data))"

definition handleEmergencyAlert ::
  "nat \<Rightarrow> nat \<Rightarrow> js \<Rightarrow> dashboardData \<Rightarrow> completion \<times> dashboardData \<times> effect list" where
  "handleEmergencyAlert now stamp data st =
     (let alert = alert_record now stamp data;
          st1 = st\<lparr>alerts := alert # alerts st\<rparr>;
          st2 = st1\<lparr>statistics :=
                  (statistics st1)\<lparr>totalAlerts := totalAlerts (statistics st1) + 1\<rparr>\<rparr>
      in case data_severity data of
           Inl e \<Rightarrow> (Throw e, st2, [])
         | Inr sev \<Rightarrow>
             (let st3 = (if strict_eq sev (JStr ''CRITICAL'')
                         then st2\<lparr>statistics :=
                                (statistics st2)\<lparr>criticalAlerts :=
                                   criticalAlerts (statistics st2) + 1\<rparr>\<rparr>
                         else st2);
                  st4 = (if length (alerts st3) > 50
                         then st3\<lparr>alerts := take 50 (alerts st3)\<rparr>
                         else st3)
              in (Normal, st4, [IoEmit ''newAlert'' (JObj alert)])))"

definition handlePredictionData :: "nat \<Rightarrow> js \<Rightarrow> dashboardData \<Rightarrow> dashboardData" where
  "handlePredictionData stamp data st =
     st\<lparr>predictions := set_prop ''timestamp'' (JDate stamp) (spread [] data)\<rparr>"

definition handleAnomalyData :: "js \<Rightarrow> dashboardData \<Rightarrow> dashboardData" where
  "handleAnomalyData data st =
     st\<lparr>statistics :=
          (statistics st)\<lparr>anomaliesDetected := anomaliesDetected (statistics st) + 1\<rparr>\<rparr>"

section \<open>The bus message handler\<close>

text \<open>
  \<open>mqttClient.on('message', ...)\<close>. \<open>parsed\<close> is the outcome of
  \<^verbatim>\<open>JSON.parse(message.toString())\<close>: \<open>None\<close> when it throws. \<open>now\<close> and \<open>stamp\<close> are the
  clock values the data handler reads, \<open>emitStamp\<close> the one of the \<^verbatim>\<open>dataUpdate\<close>
  broadcast. Everything is inside one \<^verbatim>\<open>try\<close>: an exception from the parser or from a
  handler ends in the \<^verbatim>\<open>catch\<close>, which logs the topic.
\<close>

definition dispatch ::
  "nat \<Rightarrow> nat \<Rightarrow> string \<Rightarrow> js \<Rightarrow> dashboardData \<Rightarrow> completion \<times> dashboardData \<times> effect list" where
  "dispatch now stamp topic data st =
     (if topic = ''invernadero/sensores/raw'' then (Normal, handleSensorData now stamp data st, [])
      else if topic = ''invernadero/alertas/emergentes'' then handleEmergencyAlert now stamp data st
      else if topic = ''invernadero/predicciones'' then (Normal, handlePredictionData stamp data st, [])
      else if topic = ''invernadero/anomalias'' then (Normal, handleAnomalyData data st, [])
      else (Normal, st, []))"

definition data_update :: "string \<Rightarrow> js \<Rightarrow> nat \<Rightarrow> effect" where
  "data_update topic data emitStamp =
     IoEmit ''dataUpdate''
       (JObj [(''topic'', JStr topic), (''data'', data), (''timestamp'', JDate emitStamp)])"

definition on_message ::
  "nat \<Rightarrow> nat \<Rightarrow> nat \<Rightarrow> string \<Rightarrow> js option \<Rightarrow> dashboardData \<Rightarrow> dashboardData \<times> effect list" where
  "on_message now stamp emitStamp topic parsed st =
     (case parsed of
        None \<Rightarrow> (st, [ConsoleError topic])
      | Some data \<Rightarrow>
          (case dispatch now stamp topic data st of
             (Normal, st', effs) \<Rightarrow> (st', effs @ [data_update topic data emitStamp])
           | (Throw e, st', effs) \<Rightarrow> (st', effs @ [ConsoleError topic])))"

section \<open>Acknowledgment\<close>

text \<open>
  \<^verbatim>\<open>alerts.find(a => a.id === alertId)\<close> returns a reference to the first matching
  alert, and the assignments through that reference change the alert where it is in the
  list: \<open>assign_found\<close> applies the change to the first element that matches.
\<close>

definition has_id :: "js \<Rightarrow> obj \<Rightarrow> bool" where
  "has_id alertId a = strict_eq (get_prop a ''id'') alertId"

fun assign_found :: "('a \<Rightarrow> bool) \<Rightarrow> ('a \<Rightarrow> 'a) \<Rightarrow> 'a list \<Rightarrow> 'a list" where
  "assign_found P f [] = []"
| "assign_found P f (x # xs) = (if P x then f x # xs else x # assign_found P f xs)"

text \<open>\<^verbatim>\<open>app.post('/api/alerts/:id/acknowledge')\<close>; the path parameter is a string.\<close>

definition http_acknowledged :: "nat \<Rightarrow> obj \<Rightarrow> obj" where
  "http_acknowledged now alert =
     set_prop ''acknowledgedAt'' (JDate now) (set_prop ''acknowledged'' (JBool True) alert)"

definition post_acknowledge :: "nat \<Rightarrow> string \<Rightarrow> dashboardData \<Rightarrow> dashboardData \<times> effect list" where
  "post_acknowledge now alertId st =
     (case find (has_id (JStr alertId)) (alerts st) of
        Some alert \<Rightarrow>
          (st\<lparr>alerts := assign_found (has_id (JStr alertId)) (http_acknowledged now) (alerts st)\<rparr>,
           [ResJson 200 (JObj [(''success'', JBool True),
                               (''alert'', JObj (http_acknowledged now alert))])])
      | None \<Rightarrow> (st, [ResJson 404 (JObj [(''error'', JStr ''Alert not found'')])]))"

text \<open>\<^verbatim>\<open>socket.on('acknowledgeAlert')\<close>; the argument is whatever the subscriber sent.\<close>

definition socket_acknowledge :: "js \<Rightarrow> dashboardData \<Rightarrow> dashboardData \<times> effect list" where
  "socket_acknowledge alertId st =
     (case find (has_id alertId) (alerts st) of
        Some alert \<Rightarrow>
          (st\<lparr>alerts := assign_found (has_id alertId) (set_prop ''acknowledged'' (JBool True))
                           (alerts st)\<rparr>,
           [IoEmit ''alertAcknowledged'' alertId])
      | None \<Rightarrow> (st, []))"

section \<open>The server as a transition system\<close>

text \<open>
  One event per callback of the server that touches \<open>dashboardData\<close>; each runs to
  completion before the next. The clock values an event's handler reads are part of the
  event.
\<close>

datatype event =
    Message nat nat nat string "js option"
  | PostAcknowledge nat string
  | SocketAcknowledge js
  | Connection
  | RequestData
  | GetDashboardData

fun step :: "event \<Rightarrow> dashboardData \<Rightarrow> dashboardData \<times> effect list" where
  "step (Message now stamp emitStamp topic parsed) st = on_message now stamp emitStamp topic parsed st"
| "step (PostAcknowledge now alertId) st = post_acknowledge now alertId st"
| "step (SocketAcknowledge alertId) st = socket_acknowledge alertId st"
| "step Connection st = (st, [SocketEmit ''initialData'' st])"
| "step RequestData st = (st, [SocketEmit ''dataUpdate'' st])"
| "step GetDashboardData st = (st, [])"

fun run :: "event list \<Rightarrow> dashboardData \<Rightarrow> dashboardData \<times> effect list" where
  "run [] st = (st, [])"
| "run (e # es) st =
     (case step e st of (st1, out1) \<Rightarrow>
        (case run es st1 of (st2, out2) \<Rightarrow> (st2, out1 @ out2)))"

section \<open>Event sequences\<close>

text \<open>
  The sensor readings of an event sequence: for every bus message on the sensor topic
  whose payload parsed, the two clock values the handler reads and the payload.
\<close>

fun sensor_readings :: "event list \<Rightarrow> (nat \<times> nat \<times> js) list" where
  "sensor_readings [] = []"
| "sensor_readings (Message now stamp emitStamp topic (Some data) # es) =
     (if topic = ''invernadero/sensores/raw''
      then (now, stamp, data) # sensor_readings es else sensor_readings es)"
| "sensor_readings (e # es) = sensor_readings es"

text \<open>The entry that \<open>handleSensorData\<close> stores for a reading: its key and its record.\<close>

definition sensor_entry :: "nat \<times> nat \<times> js \<Rightarrow> string \<times> js" where
  "sensor_entry r = (''sensor_'' @ dec (fst r), sensor_record (fst (snd r)) (snd (snd r)))"

text \<open>The payloads of the alerts of an event sequence, in order of arrival.\<close>

fun alert_payloads :: "event list \<Rightarrow> js list" where
  "alert_payloads [] = []"
| "alert_payloads (Message now stamp emitStamp topic (Some data) # es) =
     (if topic = ''invernadero/alertas/emergentes''
      then data # alert_payloads es else alert_payloads es)"
| "alert_payloads (e # es) = alert_payloads es"

text \<open>A payload whose \<^verbatim>\<open>severity\<close> is \<^verbatim>\<open>'CRITICAL'\<close>.\<close>

definition is_critical :: "js \<Rightarrow> bool" where
  "is_critical data =
     (case data_severity data of Inl e \<Rightarrow> False | Inr sev \<Rightarrow> strict_eq sev (JStr ''CRITICAL''))"

text \<open>An alert whose \<^verbatim>\<open>acknowledged\<close> is \<^verbatim>\<open>true\<close>.\<close>

definition acked :: "obj \<Rightarrow> bool" where
  "acked a = (get_prop a ''acknowledged'' = JBool True)"

text \<open>
  The number of alerts an event sequence puts in front of the list: an alert that was
  at index \<open>i\<close> before is at index \<open>i + arrivals evs\<close> afterwards, if it is still stored.
\<close>

definition arrivals :: "event list \<Rightarrow> nat" where
  "arrivals evs = length (alert_payloads evs)"

text \<open>
  Three message sequences: readings \<open>R1 .. Rn\<close> that arrive one millisecond apart,
  readings \<open>R1 .. Rn\<close> that all arrive in the millisecond \<open>t\<close>, and \<open>n\<close> alert messages
  whose payload is the JSON text \<^verbatim>\<open>null\<close>.
\<close>

definition reading :: "nat \<Rightarrow> js" where
  "reading i = JObj [(''n'', JNum (of_nat i))]"

definition spaced_readings :: "nat \<Rightarrow> event list" where
  "spaced_readings n =
     map (\<lambda>i. Message i i i ''invernadero/sensores/raw'' (Some (reading i))) [1..<Suc n]"

definition burst_readings :: "nat \<Rightarrow> nat \<Rightarrow> event list" where
  "burst_readings t n =
     map (\<lambda>i. Message t t t ''invernadero/sensores/raw'' (Some (reading i))) [1..<Suc n]"

definition null_alerts :: "nat \<Rightarrow> event list" where
  "null_alerts n = replicate n (Message 0 0 0 ''invernadero/alertas/emergentes'' (Some JNull))"

text \<open>
  The state after one alert with the payload \<^verbatim>\<open>{"severity": "CRITICAL"}\<close> has arrived at
  millisecond 1 of a fresh process.
\<close>

definition one_alert :: dashboardData where
  "one_alert =
     fst (on_message 1 1 1 ''invernadero/alertas/emergentes''
            (Some (JObj [(''severity'', JStr ''CRITICAL'')])) (dashboardData0 0 0 0))"

text \<open>
  \<open>carries_on a b\<close>: \<open>b\<close> is the alert \<open>a\<close> at a later time. Every property other than
  \<^verbatim>\<open>acknowledged\<close> and \<^verbatim>\<open>acknowledgedAt\<close> has the value it had, and an acknowledged
  alert is still acknowledged.
\<close>

definition carries_on :: "obj \<Rightarrow> obj \<Rightarrow> bool" where
  "carries_on a b \<longleftrightarrow>
     (acked a \<longrightarrow> acked b) \<and>
     (\<forall>k. k \<noteq> ''acknowledged'' \<and> k \<noteq> ''acknowledgedAt'' \<longrightarrow> get_prop b k = get_prop a k)"

text \<open>
  The state after the alert of \<open>one_alert\<close> has been acknowledged by request at
  millisecond 5, and a sequence of later events: an alert whose payload is \<^verbatim>\<open>null\<close>, a
  subscriber's acknowledgment of it, a second acknowledgment of the first alert, another
  alert and a new subscriber.
\<close>

definition acknowledged_alert :: dashboardData where
  "acknowledged_alert = fst (post_acknowledge 5 ''alert_1'' one_alert)"

definition later_events :: "event list" where
  "later_events =
     [Message 2 2 2 ''invernadero/alertas/emergentes'' (Some JNull),
      SocketAcknowledge (JStr ''alert_2''),
      PostAcknowledge 7 ''alert_1'',
      Message 3 3 3 ''invernadero/alertas/emergentes'' (Some (JObj [])),
      Connection]"

text \<open>
  The state after two alert messages whose handlers read the same value \<open>now\<close> of
  \<^verbatim>\<open>Date.now()\<close>: first the payload \<open>d1\<close>, then the payload \<open>d2\<close>.
\<close>

definition same_ms_alerts ::
  "nat \<Rightarrow> nat \<Rightarrow> nat \<Rightarrow> js \<Rightarrow> nat \<Rightarrow> nat \<Rightarrow> js \<Rightarrow> dashboardData \<Rightarrow> dashboardData" where
  "same_ms_alerts now s1 e1 d1 s2 e2 d2 st =
     fst (on_message now s2 e2 ''invernadero/alertas/emergentes'' (Some d2)
       (fst (on_message now s1 e1 ''invernadero/alertas/emergentes'' (Some d1) st)))"

section \<open>Properties of the value operations\<close>
lemma digit_inj: "a < 10 \<Longrightarrow> b < 10 \<Longrightarrow> digit a = digit b \<Longrightarrow> a = b"
proof -
  assume a: "a < 10" and b: "b < 10" and e: "digit a = digit b"
  from e have "(of_char (char_of (48 + a) :: char) :: nat) = of_char (char_of (48 + b) :: char)"
    by (simp add: digit_def)
  then have "(48 + a) mod 256 = (48 + b) mod 256"
    by (simp only: of_char_of)
  with a b show ?thesis by simp
qed

lemma dec_nonempty: "dec n \<noteq> []"
  by (subst dec.simps) simp

lemma dec_small: "n < 10 \<Longrightarrow> dec n = [digit n]"
  by (subst dec.simps) simp

lemma dec_large: "\<not> n < 10 \<Longrightarrow> dec n = dec (n div 10) @ [digit (n mod 10)]"
  by (subst dec.simps) simp

lemma dec_inj: "dec m = dec n \<Longrightarrow> m = n"
proof (induction m arbitrary: n rule: dec.induct)
  case (1 m)
  show ?case
  proof (cases "m < 10")
    case True
    show ?thesis
    proof (cases "n < 10")
      case n: True
      with True "1.prems" show ?thesis by (simp add: dec_small digit_inj)
    next
      case n: False
      with True "1.prems" dec_nonempty [of "n div 10"] show ?thesis
        by (simp add: dec_small dec_large)
    qed
  next
    case False
    show ?thesis
    proof (cases "n < 10")
      case n: True
      with False "1.prems" dec_nonempty [of "m div 10"] show ?thesis
        by (simp add: dec_small dec_large)
    next
      case n: False
      with False "1.prems" have e: "dec (m div 10) = dec (n div 10)" and d: "digit (m mod 10) = digit (n mod 10)"
        by (simp_all add: dec_large)
      from "1.IH" [OF False e] have "m div 10 = n div 10" .
      moreover from d have "m mod 10 = n mod 10" by (auto dest!: digit_inj [rotated 2])
      ultimately show ?thesis by (metis div_mult_mod_eq)
    qed
  qed
qed

lemma get_prop_set_prop_same: "get_prop (set_prop k v ps) k = v"
  by (induction ps) (auto simp: get_prop_def)

lemma get_prop_set_prop_other: "k' \<noteq> k \<Longrightarrow> get_prop (set_prop k v ps) k' = get_prop ps k'"
  by (induction ps) (auto simp: get_prop_def)

lemma set_prop_absent: "k \<notin> fst ` set ps \<Longrightarrow> set_prop k v ps = ps @ [(k, v)]"
  by (induction ps) auto

lemma set_prop_twice: "set_prop k w (set_prop k v ps) = set_prop k w ps"
  by (induction ps) auto

lemma keys_set_prop_present: "k \<in> fst ` set ps \<Longrightarrow> keys (set_prop k v ps) = keys ps"
  by (induction ps) (auto simp: keys_def)

lemma length_set_prop_le: "length (set_prop k v ps) \<le> Suc (length ps)"
  by (induction ps) auto

lemma set_prop_nonempty: "set_prop k v ps \<noteq> []"
  by (cases ps) auto

lemma del_first_key_shrinks: "ps \<noteq> [] \<Longrightarrow> length (del_prop (keys ps ! 0) ps) < length ps"
  by (cases ps) (auto simp: del_prop_def keys_def intro: le_imp_less_Suc)

lemma del_first_key_distinct:
  assumes "distinct (map fst ps)" and "ps \<noteq> []"
  shows "del_prop (keys ps ! 0) ps = tl ps"
proof (cases ps)
  case Nil
  with assms show ?thesis by simp
next
  case (Cons p qs)
  with assms have "fst p \<notin> fst ` set qs" by simp
  then have "\<forall>q \<in> set qs. fst q \<noteq> fst p" by (metis imageI)
  then have "filter (\<lambda>q. fst q \<noteq> fst p) qs = qs" by (simp add: filter_id_conv)
  with Cons show ?thesis by (simp add: del_prop_def keys_def)
qed

section \<open>The sensor collection\<close>

lemma fst_sensor_entry: "fst (sensor_entry r) = ''sensor_'' @ dec (fst r)"
  by (simp add: sensor_entry_def)

lemma distinct_sensor_keys:
  "distinct (map fst rs) \<Longrightarrow> distinct (map fst (map sensor_entry rs))"
  by (simp add: distinct_map comp_def fst_sensor_entry inj_on_def dec_inj)

lemma fifo_insert:
  assumes d: "distinct (map fst (xs @ [(k, v)]))"
  shows "(let zs = set_prop k v (drop (length xs - 100) xs)
          in if length (keys zs) > 100 then del_prop (keys zs ! 0) zs else zs)
         = drop (Suc (length xs) - 100) (xs @ [(k, v)])"
proof -
  let ?ys = "drop (length xs - 100) xs"
  from d have "k \<notin> fst ` set xs" by auto
  then have kn: "k \<notin> fst ` set ?ys" by (auto dest: in_set_dropD)
  then have zs: "set_prop k v ?ys = ?ys @ [(k, v)]" by (rule set_prop_absent)
  from d have "distinct (map fst ?ys)" by (simp add: drop_map [symmetric])
  with kn have dz: "distinct (map fst (?ys @ [(k, v)]))" by simp
  show ?thesis
  proof (cases "length xs < 100")
    case True
    with zs show ?thesis by (simp add: keys_def Let_def)
  next
    case False
    then have len: "length (?ys @ [(k, v)]) = 101" by simp
    have "del_prop (keys (?ys @ [(k, v)]) ! 0) (?ys @ [(k, v)]) = tl (?ys @ [(k, v)])"
      using dz by (intro del_first_key_distinct) simp_all
    also have "\<dots> = tl ?ys @ [(k, v)]"
      using False by (cases ?ys) simp_all
    also have "tl ?ys = drop (Suc (length xs - 100)) xs"
      by (simp add: drop_Suc tl_drop)
    also have "Suc (length xs - 100) = Suc (length xs) - 100"
      using False by simp
    also have "drop (Suc (length xs) - 100) xs @ [(k, v)] = drop (Suc (length xs) - 100) (xs @ [(k, v)])"
      using False by simp
    finally show ?thesis using len by (simp add: zs keys_def Let_def)
  qed
qed

lemma fst_run_Cons: "fst (run (e # es) st) = fst (run es (fst (step e st)))"
  by (simp split: prod.splits)

lemma snd_run_Cons: "snd (run (e # es) st) = snd (step e st) @ snd (run es (fst (step e st)))"
  by (simp split: prod.splits)

lemma sensors_handleEmergencyAlert:
  "sensors (fst (snd (handleEmergencyAlert now stamp data st))) = sensors st"
  by (simp add: handleEmergencyAlert_def Let_def split: sum.splits)

lemma sensors_on_message:
  "sensors (fst (on_message now stamp emitStamp topic parsed st)) =
     (case parsed of
        None \<Rightarrow> sensors st
      | Some data \<Rightarrow>
          if topic = ''invernadero/sensores/raw''
          then sensors (handleSensorData now stamp data st) else sensors st)"
proof (cases parsed)
  case None
  then show ?thesis by (simp add: on_message_def)
next
  case (Some data)
  obtain c st' effs where h: "handleEmergencyAlert now stamp data st = (c, st', effs)"
    by (cases "handleEmergencyAlert now stamp data st")
  with sensors_handleEmergencyAlert [of now stamp data st] have "sensors st' = sensors st" by simp
  with Some h show ?thesis
    by (simp add: on_message_def dispatch_def handlePredictionData_def handleAnomalyData_def
        split: completion.splits)
qed

lemma sensors_post_acknowledge: "sensors (fst (post_acknowledge now alertId st)) = sensors st"
  by (simp add: post_acknowledge_def split: option.splits)

lemma sensors_socket_acknowledge: "sensors (fst (socket_acknowledge alertId st)) = sensors st"
  by (simp add: socket_acknowledge_def split: option.splits)

lemma sensor_readings_Cons: "sensor_readings (e # es) = sensor_readings [e] @ sensor_readings es"
  by (induction "e # es" rule: sensor_readings.induct) auto

lemma sensors_step:
  "sensors (fst (step e st)) =
     (case sensor_readings [e] of
        [] \<Rightarrow> sensors st
      | r # rs \<Rightarrow> sensors (handleSensorData (fst r) (fst (snd r)) (snd (snd r)) st))"
  by (induction "[e]" rule: sensor_readings.induct)
     (auto simp: sensors_on_message sensors_post_acknowledge sensors_socket_acknowledge)

lemma sensor_readings_single: "sensor_readings [e] = [] \<or> (\<exists>r. sensor_readings [e] = [r])"
  by (induction "[e]" rule: sensor_readings.induct) auto

lemma sensors_handle_bound:
  assumes "length (sensors st) \<le> 100"
  shows "length (sensors (handleSensorData now stamp data st)) \<le> 100"
proof -
  let ?zs = "set_prop (''sensor_'' @ dec now) (sensor_record stamp data) (sensors st)"
  have le: "length ?zs \<le> 101" using assms length_set_prop_le [of "''sensor_'' @ dec now" "sensor_record stamp data" "sensors st"] by simp
  have "length (del_prop (keys ?zs ! 0) ?zs) < length ?zs"
    by (rule del_first_key_shrinks) (rule set_prop_nonempty)
  with le have "length (del_prop (keys ?zs ! 0) ?zs) \<le> 100" by simp
  then show ?thesis by (simp add: handleSensorData_def Let_def keys_def)
qed

lemma sensors_step_bound:
  "length (sensors st) \<le> 100 \<Longrightarrow> length (sensors (fst (step e st))) \<le> 100"
  by (simp add: sensors_step sensors_handle_bound split: list.splits)

lemma sensors_run_bound:
  "length (sensors st) \<le> 100 \<Longrightarrow> length (sensors (fst (run evs st))) \<le> 100"
proof (induction evs arbitrary: st)
  case Nil
  then show ?case by simp
next
  case (Cons e es)
  from Cons.prems have "length (sensors (fst (step e st))) \<le> 100" by (rule sensors_step_bound)
  then have "length (sensors (fst (run es (fst (step e st))))) \<le> 100" by (rule Cons.IH)
  then show ?case by (simp only: fst_run_Cons)
qed

lemma sensors_handle_fifo:
  assumes s: "sensors st = drop (length rs0 - 100) (map sensor_entry rs0)"
    and d: "distinct (map fst (rs0 @ [r]))"
  shows "sensors (handleSensorData (fst r) (fst (snd r)) (snd (snd r)) st) =
           drop (length (rs0 @ [r]) - 100) (map sensor_entry (rs0 @ [r]))"
proof -
  let ?xs = "map sensor_entry rs0"
  let ?k = "''sensor_'' @ dec (fst r)"
  let ?v = "sensor_record (fst (snd r)) (snd (snd r))"
  have e: "sensor_entry r = (?k, ?v)" by (simp add: sensor_entry_def)
  from d have "distinct (map fst (map sensor_entry (rs0 @ [r])))" by (rule distinct_sensor_keys)
  then have "distinct (map fst (?xs @ [(?k, ?v)]))" by (simp add: e)
  then have f: "(let zs = set_prop ?k ?v (drop (length ?xs - 100) ?xs)
                 in if length (keys zs) > 100 then del_prop (keys zs ! 0) zs else zs)
                = drop (Suc (length ?xs) - 100) (?xs @ [(?k, ?v)])"
    by (rule fifo_insert)
  have h: "sensors (handleSensorData (fst r) (fst (snd r)) (snd (snd r)) st) =
             (let zs = set_prop ?k ?v (sensors st)
              in if length (keys zs) > 100 then del_prop (keys zs ! 0) zs else zs)"
    by (simp add: handleSensorData_def Let_def)
  from s have s': "sensors st = drop (length ?xs - 100) ?xs" by simp
  have g: "drop (Suc (length ?xs) - 100) (?xs @ [(?k, ?v)]) =
             drop (length (rs0 @ [r]) - 100) (map sensor_entry (rs0 @ [r]))"
    by (simp add: e)
  show ?thesis unfolding h s' f g ..
qed

lemma sensors_run_fifo:
  assumes "sensors st = drop (length rs0 - 100) (map sensor_entry rs0)"
    and "distinct (map fst (rs0 @ sensor_readings evs))"
  shows "sensors (fst (run evs st)) =
           drop (length (rs0 @ sensor_readings evs) - 100) (map sensor_entry (rs0 @ sensor_readings evs))"
  using assms
proof (induction evs arbitrary: st rs0)
  case Nil
  then show ?case by simp
next
  case (Cons e es)
  from sensor_readings_single [of e] show ?case
  proof
    assume n: "sensor_readings [e] = []"
    then have r: "sensor_readings (e # es) = sensor_readings es"
      using sensor_readings_Cons [of e es] by simp
    from n have "sensors (fst (step e st)) = sensors st" by (simp add: sensors_step)
    with Cons.prems(1) have "sensors (fst (step e st)) = drop (length rs0 - 100) (map sensor_entry rs0)"
      by simp
    from Cons.IH [OF this] Cons.prems(2) show ?thesis
      by (simp only: fst_run_Cons r)
  next
    assume "\<exists>r. sensor_readings [e] = [r]"
    then obtain r where n: "sensor_readings [e] = [r]" ..
    then have r: "sensor_readings (e # es) = r # sensor_readings es"
      using sensor_readings_Cons [of e es] by simp
    from Cons.prems(2) have d1: "distinct (map fst (rs0 @ [r]))" by (simp add: r)
    from n have "sensors (fst (step e st)) = sensors (handleSensorData (fst r) (fst (snd r)) (snd (snd r)) st)"
      by (simp add: sensors_step)
    also note sensors_handle_fifo [OF Cons.prems(1) d1]
    finally have s1: "sensors (fst (step e st)) = drop (length (rs0 @ [r]) - 100) (map sensor_entry (rs0 @ [r]))" .
    from Cons.prems(2) have d2: "distinct (map fst ((rs0 @ [r]) @ sensor_readings es))" by (simp add: r)
    from Cons.IH [OF s1 d2] show ?thesis
      by (simp only: fst_run_Cons r append_assoc append_Cons append_Nil)
  qed
qed

text \<open>
  Claim C1, as amended. From process start and after any sequence of events, the sensor
  collection holds at most 100 entries. If the sensor readings of the sequence were
  ingested at pairwise distinct values of \<^verbatim>\<open>Date.now()\<close>, the collection is exactly the
  entries of the 100 most recently ingested readings (of all of them, if fewer), in
  insertion order: every earlier reading has been evicted, oldest first.
\<close>

theorem C1_sensors_fifo:
  "length (sensors (fst (run evs (dashboardData0 t1 t2 t5)))) \<le> 100 \<and>
   (distinct (map fst (sensor_readings evs)) \<longrightarrow>
      sensors (fst (run evs (dashboardData0 t1 t2 t5))) =
        drop (length (sensor_readings evs) - 100) (map sensor_entry (sensor_readings evs)))"
proof
  show "length (sensors (fst (run evs (dashboardData0 t1 t2 t5)))) \<le> 100"
    by (rule sensors_run_bound) (simp add: dashboardData0_def)
  show "distinct (map fst (sensor_readings evs)) \<longrightarrow>
      sensors (fst (run evs (dashboardData0 t1 t2 t5))) =
        drop (length (sensor_readings evs) - 100) (map sensor_entry (sensor_readings evs))"
    using sensors_run_fifo [of "dashboardData0 t1 t2 t5" "[]" evs]
    by (simp add: dashboardData0_def)
qed

text \<open>
  Scenario B at distinct milliseconds: readings \<open>R1 .. R101\<close> ingested one millisecond
  apart leave exactly the entries of \<open>R2 .. R101\<close>.
\<close>

theorem C1_sensors_fifo_witness:
  "distinct (map fst (sensor_readings (spaced_readings 101))) \<and>
   length (sensor_readings (spaced_readings 101)) = 101 \<and>
   length (sensors (fst (run (spaced_readings 101) (dashboardData0 0 0 0)))) \<le> 100 \<and>
   sensors (fst (run (spaced_readings 101) (dashboardData0 0 0 0))) =
     drop 1 (map sensor_entry (sensor_readings (spaced_readings 101)))"
proof -
  have d: "distinct (map fst (sensor_readings (spaced_readings 101)))" by code_simp
  have l: "length (sensor_readings (spaced_readings 101)) = 101" by code_simp
  from C1_sensors_fifo [of "spaced_readings 101" 0 0 0] d l show ?thesis by simp
qed

text \<open>
  Claim C1 as stated fails when readings share a millisecond: \<open>R1 .. R101\<close> ingested
  in the same millisecond leave one entry, the record of \<open>R101\<close>, and not the 100 most
  recent readings \<open>R2 .. R101\<close>.
\<close>

theorem C1_counterexample:
  "sensors (fst (run (burst_readings 5 101) (dashboardData0 0 0 0))) =
     [(''sensor_5'', sensor_record 5 (reading 101))]"
  by code_simp

section \<open>Counters and failures\<close>

lemma alert_payloads_Cons: "alert_payloads (e # es) = alert_payloads [e] @ alert_payloads es"
  by (induction "e # es" rule: alert_payloads.induct) auto

lemma statistics_handleEmergencyAlert:
  "statistics (fst (snd (handleEmergencyAlert now stamp data st))) =
     (statistics st)\<lparr>totalAlerts := totalAlerts (statistics st) + 1,
                      criticalAlerts := criticalAlerts (statistics st) + (if is_critical data then 1 else 0)\<rparr>"
  by (simp add: handleEmergencyAlert_def Let_def is_critical_def split: sum.splits)

lemma statistics_on_message:
  "totalAlerts (statistics (fst (on_message now stamp emitStamp topic parsed st))) =
     totalAlerts (statistics st) + length (alert_payloads [Message now stamp emitStamp topic parsed]) \<and>
   criticalAlerts (statistics (fst (on_message now stamp emitStamp topic parsed st))) =
     criticalAlerts (statistics st) +
       length (filter is_critical (alert_payloads [Message now stamp emitStamp topic parsed]))"
proof (cases parsed)
  case None
  then show ?thesis by (simp add: on_message_def)
next
  case (Some data)
  obtain c st' effs where h: "handleEmergencyAlert now stamp data st = (c, st', effs)"
    by (cases "handleEmergencyAlert now stamp data st")
  with statistics_handleEmergencyAlert [of now stamp data st]
  have "statistics st' =
     (statistics st)\<lparr>totalAlerts := totalAlerts (statistics st) + 1,
                      criticalAlerts := criticalAlerts (statistics st) + (if is_critical data then 1 else 0)\<rparr>"
    by simp
  with Some h show ?thesis
    by (simp add: on_message_def dispatch_def handlePredictionData_def handleAnomalyData_def
        handleSensorData_def Let_def split: completion.splits)
qed

lemma statistics_step:
  "totalAlerts (statistics (fst (step e st))) =
     totalAlerts (statistics st) + length (alert_payloads [e]) \<and>
   criticalAlerts (statistics (fst (step e st))) =
     criticalAlerts (statistics st) + length (filter is_critical (alert_payloads [e]))"
proof (cases e)
  case (Message now stamp emitStamp topic parsed)
  with statistics_on_message [of now stamp emitStamp topic parsed st] show ?thesis by simp
next
  case (PostAcknowledge now alertId)
  then show ?thesis by (simp add: post_acknowledge_def split: option.splits)
next
  case (SocketAcknowledge alertId)
  then show ?thesis by (simp add: socket_acknowledge_def split: option.splits)
qed simp_all

lemma statistics_run:
  "totalAlerts (statistics (fst (run evs st))) =
     totalAlerts (statistics st) + length (alert_payloads evs) \<and>
   criticalAlerts (statistics (fst (run evs st))) =
     criticalAlerts (statistics st) + length (filter is_critical (alert_payloads evs))"
proof (induction evs arbitrary: st)
  case Nil
  show ?case by simp
next
  case (Cons e es)
  from Cons.IH [of "fst (step e st)"] statistics_step [of e st] alert_payloads_Cons [of e es]
  show ?case by (simp only: fst_run_Cons) simp
qed

text \<open>
  Claim C7. From process start and after any sequence of events, \<open>criticalAlerts\<close> is
  the number of ingested alerts whose payload has \<^verbatim>\<open>severity === 'CRITICAL'\<close>,
  \<open>totalAlerts\<close> is the number of ingested alerts, whatever the list has dropped since,
  and \<open>criticalAlerts \<le> totalAlerts\<close>.
\<close>

theorem C7_critical_count:
  "criticalAlerts (statistics (fst (run evs (dashboardData0 t1 t2 t5)))) =
     length (filter is_critical (alert_payloads evs)) \<and>
   totalAlerts (statistics (fst (run evs (dashboardData0 t1 t2 t5)))) =
     length (alert_payloads evs) \<and>
   criticalAlerts (statistics (fst (run evs (dashboardData0 t1 t2 t5)))) \<le>
     totalAlerts (statistics (fst (run evs (dashboardData0 t1 t2 t5))))"
  using statistics_run [of evs "dashboardData0 t1 t2 t5"]
  by (simp add: dashboardData0_def)

text \<open>
  Claim C5. A bus message whose payload does not parse, on any topic, leaves the state
  as it was and has one effect, the error line of the \<^verbatim>\<open>catch\<close>: no broadcast. The
  events after it are served as if it had not arrived.
\<close>

theorem C5_decode_failure:
  "on_message now stamp emitStamp topic None st = (st, [ConsoleError topic]) \<and>
   run (Message now stamp emitStamp topic None # evs) st =
     (fst (run evs st), ConsoleError topic # snd (run evs st))"
  by (simp add: on_message_def split: prod.splits)

text \<open>
  Claim C2 fails on the code: 51 alert messages whose payload is the JSON text
  \<^verbatim>\<open>null\<close> leave 51 alerts in the list. Each is put in the list and counted, then
  \<^verbatim>\<open>data.severity\<close> throws, and the truncation to 50 is never reached.
\<close>

theorem C2_null_alerts_exceed_50:
  "length (alerts (fst (run (null_alerts 51) (dashboardData0 0 0 0)))) = 51 \<and>
   snd (run (null_alerts 51) (dashboardData0 0 0 0)) =
     replicate 51 (ConsoleError ''invernadero/alertas/emergentes'')"
  by code_simp

section \<open>Fan-out of bus messages\<close>

lemma get_prop_foldl_set_prop:
  "get_prop (foldl (\<lambda>ob p. set_prop (fst p) (snd p) ob) acc ps) k =
     (if k \<in> fst ` set ps
      then get_prop (foldl (\<lambda>ob p. set_prop (fst p) (snd p) ob) [] ps) k
      else get_prop acc k)"
proof (induction ps rule: rev_induct)
  case Nil
  show ?case by simp
next
  case (snoc p ps)
  show ?case
  proof (cases "fst p = k")
    case True
    then show ?thesis by (simp add: get_prop_set_prop_same)
  next
    case False
    then have "k \<noteq> fst p" by blast
    with snoc show ?thesis by (auto simp: get_prop_set_prop_other)
  qed
qed

lemma get_prop_spread:
  "get_prop (spread acc data) k =
     (if k \<in> fst ` set (own_props data) then get_prop (spread [] data) k else get_prop acc k)"
  unfolding spread_def by (rule get_prop_foldl_set_prop)

lemma alert_record_acknowledged: "get_prop (alert_record now stamp data) ''acknowledged'' = JBool False"
  by (simp add: alert_record_def get_prop_set_prop_same)

lemma alert_record_id:
  "get_prop (alert_record now stamp data) ''id'' =
     (if ''id'' \<in> fst ` set (own_props data) then get_prop (spread [] data) ''id''
      else JStr (''alert_'' @ dec now))"
proof -
  let ?x = "JStr (''alert_'' @ dec now)"
  have "get_prop (alert_record now stamp data) ''id'' = get_prop (spread [(''id'', ?x)] data) ''id''"
    by (simp add: alert_record_def get_prop_set_prop_other)
  also have "\<dots> = (if ''id'' \<in> fst ` set (own_props data) then get_prop (spread [] data) ''id''
                     else get_prop [(''id'', ?x)] ''id'')"
    by (rule get_prop_spread)
  also have "get_prop [(''id'', ?x)] ''id'' = ?x"
    by (simp add: get_prop_def)
  finally show ?thesis .
qed

lemma data_severity_Inl: "data_severity data = Inl e \<Longrightarrow> data = JNull \<or> data = JUndefined"
  by (cases data) simp_all

lemma handleEmergencyAlert_Normal:
  assumes "data \<noteq> JNull" and "data \<noteq> JUndefined"
  shows "\<exists>st'. handleEmergencyAlert now stamp data st =
           (Normal, st', [IoEmit ''newAlert'' (JObj (alert_record now stamp data))]) \<and>
           alerts st' = take 50 (alert_record now stamp data # alerts st)"
proof (cases "data_severity data")
  case (Inl e)
  with assms data_severity_Inl show ?thesis by blast
next
  case (Inr sev)
  then show ?thesis by (simp add: handleEmergencyAlert_def Let_def)
qed

text \<open>
  Claim C6, as amended. A bus message whose payload parsed, other than an alert message
  with the payload \<^verbatim>\<open>null\<close>, is followed by exactly one \<^verbatim>\<open>dataUpdate\<close> broadcast with the
  topic, the payload and a timestamp. On the alert topic exactly one \<^verbatim>\<open>newAlert\<close>
  broadcast comes before it, carrying the alert record that is now first in the list;
  the record has \<^verbatim>\<open>acknowledged = false\<close>, and its \<^verbatim>\<open>id\<close> is the freshly assigned
  \<^verbatim>\<open>alert_<Date.now()>\<close> unless the payload has an \<^verbatim>\<open>id\<close> property of its own, which then
  replaces it.
\<close>

theorem C6_fan_out:
  assumes "topic = ''invernadero/alertas/emergentes'' \<longrightarrow> data \<noteq> JNull \<and> data \<noteq> JUndefined"
  shows "snd (on_message now stamp emitStamp topic (Some data) st) =
           (if topic = ''invernadero/alertas/emergentes''
            then [IoEmit ''newAlert'' (JObj (alert_record now stamp data))] else []) @
           [IoEmit ''dataUpdate''
              (JObj [(''topic'', JStr topic), (''data'', data), (''timestamp'', JDate emitStamp)])] \<and>
         (topic = ''invernadero/alertas/emergentes'' \<longrightarrow>
            alerts (fst (on_message now stamp emitStamp topic (Some data) st)) ! 0 =
              alert_record now stamp data) \<and>
         get_prop (alert_record now stamp data) ''acknowledged'' = JBool False \<and>
         get_prop (alert_record now stamp data) ''id'' =
           (if ''id'' \<in> fst ` set (own_props data) then get_prop (spread [] data) ''id''
            else JStr (''alert_'' @ dec now))"
proof (cases "topic = ''invernadero/alertas/emergentes''")
  case True
  with assms have "data \<noteq> JNull" and "data \<noteq> JUndefined" by simp_all
  from handleEmergencyAlert_Normal [OF this, of now stamp st]
  obtain st' where h: "handleEmergencyAlert now stamp data st =
           (Normal, st', [IoEmit ''newAlert'' (JObj (alert_record now stamp data))])"
    and a: "alerts st' = take 50 (alert_record now stamp data # alerts st)" by blast
  from True h a show ?thesis
    by (simp add: on_message_def dispatch_def data_update_def alert_record_acknowledged alert_record_id)
next
  case False
  then show ?thesis
    by (simp add: on_message_def dispatch_def data_update_def alert_record_acknowledged alert_record_id)
qed

theorem C6_fan_out_witness:
  "snd (on_message 7 8 9 ''invernadero/alertas/emergentes'' (Some (JObj [(''severity'', JStr ''CRITICAL'')]))
         (dashboardData0 0 0 0)) =
     [IoEmit ''newAlert''
        (JObj [(''id'', JStr ''alert_7''), (''severity'', JStr ''CRITICAL''),
               (''timestamp'', JDate 8), (''acknowledged'', JBool False)]),
      IoEmit ''dataUpdate''
        (JObj [(''topic'', JStr ''invernadero/alertas/emergentes''),
               (''data'', JObj [(''severity'', JStr ''CRITICAL'')]), (''timestamp'', JDate 9)])]"
proof -
  have r: "alert_record 7 8 (JObj [(''severity'', JStr ''CRITICAL'')]) =
             [(''id'', JStr ''alert_7''), (''severity'', JStr ''CRITICAL''),
              (''timestamp'', JDate 8), (''acknowledged'', JBool False)]"
    by code_simp
  have "''invernadero/alertas/emergentes'' = ''invernadero/alertas/emergentes'' \<longrightarrow>
          JObj [(''severity'', JStr ''CRITICAL'')] \<noteq> JNull \<and>
          JObj [(''severity'', JStr ''CRITICAL'')] \<noteq> JUndefined" by simp
  from C6_fan_out [OF this, of 7 8 9 "dashboardData0 0 0 0"] show ?thesis
    by (simp add: r)
qed

text \<open>
  Claim C6 as stated fails for an alert payload with an \<^verbatim>\<open>id\<close> of its own: the
  broadcast record carries the payload's \<^verbatim>\<open>id\<close>, here \<^verbatim>\<open>'X'\<close>, and not an assigned one.
\<close>

theorem C6_counterexample:
  "snd (on_message 7 8 9 ''invernadero/alertas/emergentes''
          (Some (JObj [(''id'', JStr ''X''), (''severity'', JStr ''CRITICAL'')])) (dashboardData0 0 0 0)) =
     [IoEmit ''newAlert''
        (JObj [(''id'', JStr ''X''), (''severity'', JStr ''CRITICAL''),
               (''timestamp'', JDate 8), (''acknowledged'', JBool False)]),
      IoEmit ''dataUpdate''
        (JObj [(''topic'', JStr ''invernadero/alertas/emergentes''),
               (''data'', JObj [(''id'', JStr ''X''), (''severity'', JStr ''CRITICAL'')]),
               (''timestamp'', JDate 9)])]"
  by code_simp

section \<open>Acknowledgment by request\<close>



lemma has_id_set_prop: "k \<noteq> ''id'' \<Longrightarrow> has_id x (set_prop k v a) = has_id x a"
  by (simp add: has_id_def get_prop_set_prop_other)

lemma has_id_http_acknowledged: "has_id x (http_acknowledged now a) = has_id x a"
  by (simp add: http_acknowledged_def has_id_set_prop)

lemma length_assign_found: "length (assign_found P f xs) = length xs"
  by (induction xs) auto

lemma assign_found_none: "find P xs = None \<Longrightarrow> assign_found P f xs = xs"
  by (induction xs) (auto split: if_splits)

lemma find_first_index:
  "find P xs = Some a \<Longrightarrow>
     \<exists>i < length xs. xs ! i = a \<and> P a \<and> (\<forall>j < i. \<not> P (xs ! j)) \<and> assign_found P f xs = xs[i := f a]"
proof (induction xs)
  case Nil
  then show ?case by simp
next
  case (Cons x xs)
  show ?case
  proof (cases "P x")
    case True
    with Cons.prems have "x = a" by simp
    with True have "0 < length (x # xs) \<and> (x # xs) ! 0 = a \<and> P a \<and> (\<forall>j < 0. \<not> P ((x # xs) ! j)) \<and>
        assign_found P f (x # xs) = (x # xs)[0 := f a]" by simp
    then show ?thesis by blast
  next
    case False
    with Cons.prems have "find P xs = Some a" by simp
    from Cons.IH [OF this] obtain i where i: "i < length xs" "xs ! i = a" "P a"
      "\<forall>j < i. \<not> P (xs ! j)" "assign_found P f xs = xs[i := f a]" by blast
    from i(4) False have "\<forall>j < Suc i. \<not> P ((x # xs) ! j)" by (auto simp: less_Suc_eq_0_disj)
    with i False have "Suc i < length (x # xs) \<and> (x # xs) ! Suc i = a \<and> P a \<and>
        (\<forall>j < Suc i. \<not> P ((x # xs) ! j)) \<and> assign_found P f (x # xs) = (x # xs)[Suc i := f a]"
      by simp
    then show ?thesis by blast
  qed
qed

lemma find_assign_found:
  "find P xs = Some a \<Longrightarrow> P (f a) \<Longrightarrow> find P (assign_found P f xs) = Some (f a)"
  by (induction xs) (auto split: if_splits)

lemma assign_found_twice:
  "(\<And>x. P x \<Longrightarrow> P (f x)) \<Longrightarrow> assign_found P g (assign_found P f xs) = assign_found P (\<lambda>x. g (f x)) xs"
  by (induction xs) auto

lemma set_prop_absorb:
  "k \<noteq> k' \<Longrightarrow> set_prop k v (set_prop k' v' (set_prop k v ps)) = set_prop k' v' (set_prop k v ps)"
  by (induction ps) (auto simp: set_prop_twice)

lemma http_acknowledged_twice:
  "http_acknowledged t' (http_acknowledged t a) = http_acknowledged t' a"
proof -
  have "set_prop ''acknowledged'' (JBool True)
          (set_prop ''acknowledgedAt'' (JDate t) (set_prop ''acknowledged'' (JBool True) a)) =
        set_prop ''acknowledgedAt'' (JDate t) (set_prop ''acknowledged'' (JBool True) a)"
    by (rule set_prop_absorb) simp
  then show ?thesis by (simp add: http_acknowledged_def set_prop_twice)
qed

lemma http_acknowledged_props:
  "get_prop (http_acknowledged now a) ''acknowledged'' = JBool True \<and>
   get_prop (http_acknowledged now a) ''acknowledgedAt'' = JDate now"
  by (simp add: http_acknowledged_def get_prop_set_prop_same get_prop_set_prop_other)

lemma find_Some_ex: "(\<exists>x \<in> set xs. P x) \<Longrightarrow> \<exists>a. find P xs = Some a"
  by (cases "find P xs") (auto simp: find_None_iff)


lemma alerts_one_alert:
  "alerts one_alert =
     [[(''id'', JStr ''alert_1''), (''severity'', JStr ''CRITICAL''),
       (''timestamp'', JDate 1), (''acknowledged'', JBool False)]]"
  by code_simp


section \<open>Acknowledging twice\<close>

lemma post_acknowledge_found:
  assumes "find (has_id (JStr alertId)) (alerts st) = Some a"
  shows "post_acknowledge now alertId st =
           (st\<lparr>alerts := assign_found (has_id (JStr alertId)) (http_acknowledged now) (alerts st)\<rparr>,
            [ResJson 200 (JObj [(''success'', JBool True), (''alert'', JObj (http_acknowledged now a))])])"
  using assms by (simp add: post_acknowledge_def)

text \<open>
  Claim C3, as amended. Acknowledging an alert id that a stored alert has answers with
  the record of the first such alert, now with \<^verbatim>\<open>acknowledged = true\<close> and
  \<^verbatim>\<open>acknowledgedAt\<close> set to the time of the call. A second acknowledgment of the same id
  succeeds too, and ends in the state and the answer that a single acknowledgment at the
  time of the second call gives: \<^verbatim>\<open>acknowledged\<close> stays \<^verbatim>\<open>true\<close> and \<^verbatim>\<open>acknowledgedAt\<close>
  is overwritten with the time of the second call.
\<close>

theorem C3_acknowledge_twice:
  assumes "find (has_id (JStr alertId)) (alerts st) = Some a"
  shows "snd (post_acknowledge t alertId st) =
           [ResJson 200 (JObj [(''success'', JBool True), (''alert'', JObj (http_acknowledged t a))])] \<and>
         find (has_id (JStr alertId)) (alerts (fst (post_acknowledge t alertId st))) =
           Some (http_acknowledged t a) \<and>
         get_prop (http_acknowledged t a) ''acknowledged'' = JBool True \<and>
         get_prop (http_acknowledged t a) ''acknowledgedAt'' = JDate t \<and>
         post_acknowledge t' alertId (fst (post_acknowledge t alertId st)) =
           post_acknowledge t' alertId st \<and>
         snd (post_acknowledge t' alertId (fst (post_acknowledge t alertId st))) =
           [ResJson 200 (JObj [(''success'', JBool True), (''alert'', JObj (http_acknowledged t' a))])] \<and>
         get_prop (http_acknowledged t' a) ''acknowledgedAt'' = JDate t'"
proof -
  let ?P = "has_id (JStr alertId)"
  let ?st1 = "st\<lparr>alerts := assign_found ?P (http_acknowledged t) (alerts st)\<rparr>"
  note p1 = post_acknowledge_found [OF assms, of t]
  note p2 = post_acknowledge_found [OF assms, of t']
  from assms have "?P a" by (auto simp: find_Some_iff)
  then have "?P (http_acknowledged t a)" by (simp add: has_id_http_acknowledged)
  with assms have f1: "find ?P (alerts ?st1) = Some (http_acknowledged t a)"
    by (simp add: find_assign_found)
  have "assign_found ?P (http_acknowledged t') (assign_found ?P (http_acknowledged t) (alerts st)) =
          assign_found ?P (\<lambda>x. http_acknowledged t' (http_acknowledged t x)) (alerts st)"
    by (rule assign_found_twice) (simp add: has_id_http_acknowledged)
  then have tw: "assign_found ?P (http_acknowledged t') (alerts ?st1) =
          assign_found ?P (http_acknowledged t') (alerts st)"
    by (simp add: http_acknowledged_twice)
  from post_acknowledge_found [OF f1, of t'] tw
  have p3: "post_acknowledge t' alertId ?st1 = post_acknowledge t' alertId st"
    by (simp add: p2 http_acknowledged_twice)
  from p1 p2 p3 f1 show ?thesis
    by (simp add: http_acknowledged_props)
qed

theorem C3_acknowledge_twice_witness:
  "find (has_id (JStr ''alert_1'')) (alerts one_alert) =
     Some [(''id'', JStr ''alert_1''), (''severity'', JStr ''CRITICAL''),
           (''timestamp'', JDate 1), (''acknowledged'', JBool False)] \<and>
   snd (post_acknowledge 9 ''alert_1'' (fst (post_acknowledge 5 ''alert_1'' one_alert))) =
     [ResJson 200 (JObj [(''success'', JBool True),
        (''alert'', JObj [(''id'', JStr ''alert_1''), (''severity'', JStr ''CRITICAL''),
                          (''timestamp'', JDate 1), (''acknowledged'', JBool True),
                          (''acknowledgedAt'', JDate 9)])])]"
proof -
  have f: "find (has_id (JStr ''alert_1'')) (alerts one_alert) =
     Some [(''id'', JStr ''alert_1''), (''severity'', JStr ''CRITICAL''),
           (''timestamp'', JDate 1), (''acknowledged'', JBool False)]"
    by (simp add: alerts_one_alert has_id_def get_prop_def)
  have h: "http_acknowledged 9
             [(''id'', JStr ''alert_1''), (''severity'', JStr ''CRITICAL''),
              (''timestamp'', JDate 1), (''acknowledged'', JBool False)] =
           [(''id'', JStr ''alert_1''), (''severity'', JStr ''CRITICAL''),
            (''timestamp'', JDate 1), (''acknowledged'', JBool True),
            (''acknowledgedAt'', JDate 9)]"
    by (simp add: http_acknowledged_def)
  from C3_acknowledge_twice [OF f, of 5 9]
  have "snd (post_acknowledge 9 ''alert_1'' (fst (post_acknowledge 5 ''alert_1'' one_alert))) =
     [ResJson 200 (JObj [(''success'', JBool True),
        (''alert'', JObj (http_acknowledged 9
             [(''id'', JStr ''alert_1''), (''severity'', JStr ''CRITICAL''),
              (''timestamp'', JDate 1), (''acknowledged'', JBool False)]))])]"
    by (elim conjE)
  then have "snd (post_acknowledge 9 ''alert_1'' (fst (post_acknowledge 5 ''alert_1'' one_alert))) =
     [ResJson 200 (JObj [(''success'', JBool True),
        (''alert'', JObj [(''id'', JStr ''alert_1''), (''severity'', JStr ''CRITICAL''),
                          (''timestamp'', JDate 1), (''acknowledged'', JBool True),
                          (''acknowledgedAt'', JDate 9)])])]"
    by (simp only: h)
  with f show ?thesis by (rule conjI)
qed

text \<open>
  Claim C3 as stated fails: after an acknowledgment at millisecond 5, a second
  acknowledgment of the same id at millisecond 9 changes the recorded
  \<^verbatim>\<open>acknowledgedAt\<close> from 5 to 9.
\<close>

theorem C3_counterexample:
  "get_prop (alerts (fst (post_acknowledge 5 ''alert_1'' one_alert)) ! 0) ''acknowledgedAt'' = JDate 5 \<and>
   get_prop (alerts (fst (post_acknowledge 9 ''alert_1'' (fst (post_acknowledge 5 ''alert_1'' one_alert)))) ! 0)
     ''acknowledgedAt'' = JDate 9"
  by code_simp

section \<open>Acknowledgment by a subscriber\<close>

text \<open>
  Claim C10. The subscriber's \<^verbatim>\<open>acknowledgeAlert\<close> with an id that no stored alert has
  changes nothing and emits nothing. With an id that some stored alert has, it sets
  \<^verbatim>\<open>acknowledged = true\<close> on the first such alert, leaves that alert's
  \<^verbatim>\<open>acknowledgedAt\<close> as it was (unset if it was unset), changes nothing else, and
  broadcasts one \<^verbatim>\<open>alertAcknowledged\<close> event whose payload is the id alone.
\<close>

theorem C10_socket_acknowledge:
  "((\<forall>a \<in> set (alerts st). \<not> has_id alertId a) \<longrightarrow>
      socket_acknowledge alertId st = (st, [])) \<and>
   ((\<exists>a \<in> set (alerts st). has_id alertId a) \<longrightarrow>
      (\<exists>i < length (alerts st).
         has_id alertId (alerts st ! i) \<and>
         (\<forall>j < i. \<not> has_id alertId (alerts st ! j)) \<and>
         socket_acknowledge alertId st =
           (st\<lparr>alerts := (alerts st)[i := set_prop ''acknowledged'' (JBool True) (alerts st ! i)]\<rparr>,
            [IoEmit ''alertAcknowledged'' alertId]) \<and>
         get_prop (set_prop ''acknowledged'' (JBool True) (alerts st ! i)) ''acknowledged'' = JBool True \<and>
         get_prop (set_prop ''acknowledged'' (JBool True) (alerts st ! i)) ''acknowledgedAt'' =
           get_prop (alerts st ! i) ''acknowledgedAt''))"
proof (intro conjI impI)
  assume "\<forall>a \<in> set (alerts st). \<not> has_id alertId a"
  then have "find (has_id alertId) (alerts st) = None"
    by (simp add: find_None_iff)
  then show "socket_acknowledge alertId st = (st, [])"
    by (simp add: socket_acknowledge_def)
next
  let ?f = "set_prop ''acknowledged'' (JBool True)"
  assume "\<exists>a \<in> set (alerts st). has_id alertId a"
  from find_Some_ex [where P = "has_id alertId" and xs = "alerts st", OF this]
  obtain a where f: "find (has_id alertId) (alerts st) = Some a" ..
  from find_first_index [OF f, of ?f]
  obtain i where i: "i < length (alerts st)" "alerts st ! i = a" "has_id alertId a"
    "\<forall>j < i. \<not> has_id alertId (alerts st ! j)"
    "assign_found (has_id alertId) ?f (alerts st) = (alerts st)[i := ?f a]" by blast
  from f i have "has_id alertId (alerts st ! i) \<and>
         (\<forall>j < i. \<not> has_id alertId (alerts st ! j)) \<and>
         socket_acknowledge alertId st =
           (st\<lparr>alerts := (alerts st)[i := ?f (alerts st ! i)]\<rparr>,
            [IoEmit ''alertAcknowledged'' alertId]) \<and>
         get_prop (?f (alerts st ! i)) ''acknowledged'' = JBool True \<and>
         get_prop (?f (alerts st ! i)) ''acknowledgedAt'' = get_prop (alerts st ! i) ''acknowledgedAt''"
    by (simp add: socket_acknowledge_def get_prop_set_prop_same get_prop_set_prop_other)
  with i(1) show "\<exists>i < length (alerts st).
         has_id alertId (alerts st ! i) \<and>
         (\<forall>j < i. \<not> has_id alertId (alerts st ! j)) \<and>
         socket_acknowledge alertId st =
           (st\<lparr>alerts := (alerts st)[i := ?f (alerts st ! i)]\<rparr>,
            [IoEmit ''alertAcknowledged'' alertId]) \<and>
         get_prop (?f (alerts st ! i)) ''acknowledged'' = JBool True \<and>
         get_prop (?f (alerts st ! i)) ''acknowledgedAt'' = get_prop (alerts st ! i) ''acknowledgedAt''"
    by blast
qed

theorem C10_socket_acknowledge_witness:
  "socket_acknowledge (JStr ''alert_2'') one_alert = (one_alert, []) \<and>
   socket_acknowledge (JStr ''alert_1'') one_alert =
     (one_alert\<lparr>alerts :=
        [[(''id'', JStr ''alert_1''), (''severity'', JStr ''CRITICAL''), (''timestamp'', JDate 1),
          (''acknowledged'', JBool True)]]\<rparr>,
      [IoEmit ''alertAcknowledged'' (JStr ''alert_1'')])"
proof
  have "\<forall>a \<in> set (alerts one_alert). \<not> has_id (JStr ''alert_2'') a"
    by (simp add: alerts_one_alert has_id_def get_prop_def)
  with C10_socket_acknowledge [of one_alert "JStr ''alert_2''"]
  show "socket_acknowledge (JStr ''alert_2'') one_alert = (one_alert, [])"
    by (rule conjunct1 [THEN mp])
next
  let ?f = "set_prop ''acknowledged'' (JBool True)"
  have "\<exists>a \<in> set (alerts one_alert). has_id (JStr ''alert_1'') a"
    by (simp add: alerts_one_alert has_id_def get_prop_def)
  with C10_socket_acknowledge [of one_alert "JStr ''alert_1''"]
  have "\<exists>i < length (alerts one_alert).
         has_id (JStr ''alert_1'') (alerts one_alert ! i) \<and>
         (\<forall>j < i. \<not> has_id (JStr ''alert_1'') (alerts one_alert ! j)) \<and>
         socket_acknowledge (JStr ''alert_1'') one_alert =
           (one_alert\<lparr>alerts := (alerts one_alert)[i := ?f (alerts one_alert ! i)]\<rparr>,
            [IoEmit ''alertAcknowledged'' (JStr ''alert_1'')]) \<and>
         get_prop (?f (alerts one_alert ! i)) ''acknowledged'' = JBool True \<and>
         get_prop (?f (alerts one_alert ! i)) ''acknowledgedAt'' =
           get_prop (alerts one_alert ! i) ''acknowledgedAt''"
    by (rule conjunct2 [THEN mp])
  then obtain i where i: "i < length (alerts one_alert)"
    and e: "socket_acknowledge (JStr ''alert_1'') one_alert =
           (one_alert\<lparr>alerts := (alerts one_alert)[i := ?f (alerts one_alert ! i)]\<rparr>,
            [IoEmit ''alertAcknowledged'' (JStr ''alert_1'')])"
    by blast
  from i have "i = 0" by (simp add: alerts_one_alert)
  with e show "socket_acknowledge (JStr ''alert_1'') one_alert =
     (one_alert\<lparr>alerts :=
        [[(''id'', JStr ''alert_1''), (''severity'', JStr ''CRITICAL''), (''timestamp'', JDate 1),
          (''acknowledged'', JBool True)]]\<rparr>,
      [IoEmit ''alertAcknowledged'' (JStr ''alert_1'')])"
    by (simp add: alerts_one_alert)
qed

section \<open>Acknowledged alerts stay acknowledged\<close>

lemma carries_on_refl: "carries_on a a"
  by (simp add: carries_on_def)

lemma carries_on_trans: "carries_on a b \<Longrightarrow> carries_on b c \<Longrightarrow> carries_on a c"
  by (simp add: carries_on_def)

lemma carries_on_socket: "carries_on a (set_prop ''acknowledged'' (JBool True) a)"
  by (simp add: carries_on_def acked_def get_prop_set_prop_same get_prop_set_prop_other)

lemma carries_on_http: "carries_on a (http_acknowledged now a)"
  by (simp add: carries_on_def acked_def http_acknowledged_def get_prop_set_prop_same
      get_prop_set_prop_other)

lemma assign_found_nth:
  "i < length xs \<Longrightarrow> assign_found P f xs ! i = xs ! i \<or> assign_found P f xs ! i = f (xs ! i)"
proof (induction xs arbitrary: i)
  case Nil
  then show ?case by simp
next
  case (Cons x xs)
  show ?case
  proof (cases i)
    case 0
    then show ?thesis by simp
  next
    case (Suc j)
    with Cons.prems have "j < length xs" by simp
    from Cons.IH [OF this] Suc show ?thesis by simp
  qed
qed

lemma alerts_handleEmergencyAlert:
  "alerts (fst (snd (handleEmergencyAlert now stamp data st))) =
     (case data_severity data of
        Inl e \<Rightarrow> alert_record now stamp data # alerts st
      | Inr sev \<Rightarrow> take 50 (alert_record now stamp data # alerts st))"
  by (simp add: handleEmergencyAlert_def Let_def split: sum.splits)

lemma alerts_on_message:
  "alerts (fst (on_message now stamp emitStamp topic parsed st)) =
     (case parsed of
        None \<Rightarrow> alerts st
      | Some data \<Rightarrow>
          if topic = ''invernadero/alertas/emergentes''
          then (case data_severity data of
                  Inl e \<Rightarrow> alert_record now stamp data # alerts st
                | Inr sev \<Rightarrow> take 50 (alert_record now stamp data # alerts st))
          else alerts st)"
proof (cases parsed)
  case None
  then show ?thesis by (simp add: on_message_def)
next
  case (Some data)
  obtain c st' effs where h: "handleEmergencyAlert now stamp data st = (c, st', effs)"
    by (cases "handleEmergencyAlert now stamp data st")
  with alerts_handleEmergencyAlert [of now stamp data st]
  have "alerts st' =
     (case data_severity data of
        Inl e \<Rightarrow> alert_record now stamp data # alerts st
      | Inr sev \<Rightarrow> take 50 (alert_record now stamp data # alerts st))"
    by simp
  with Some h show ?thesis
    by (simp add: on_message_def dispatch_def handlePredictionData_def handleAnomalyData_def
        handleSensorData_def Let_def split: completion.splits)
qed

lemma arrivals_Cons: "arrivals (e # es) = arrivals [e] + arrivals es"
  using alert_payloads_Cons [of e es] by (simp add: arrivals_def)

lemma alerts_step:
  "(arrivals [e] = 0 \<and> length (alerts (fst (step e st))) = length (alerts st) \<and>
      (\<forall>i < length (alerts st). carries_on (alerts st ! i) (alerts (fst (step e st)) ! i))) \<or>
   (arrivals [e] = 1 \<and> (\<exists>r n. alerts (fst (step e st)) = r # take n (alerts st)))"
proof (cases e)
  case (Message now stamp emitStamp topic parsed)
  show ?thesis
  proof (cases parsed)
    case None
    with Message show ?thesis by (simp add: alerts_on_message arrivals_def carries_on_refl)
  next
    case (Some data)
    show ?thesis
    proof (cases "topic = ''invernadero/alertas/emergentes''")
      case False
      with Message Some show ?thesis by (simp add: alerts_on_message arrivals_def carries_on_refl)
    next
      case True
      have "\<exists>r n. alerts (fst (on_message now stamp emitStamp topic parsed st)) = r # take n (alerts st)"
      proof (cases "data_severity data")
        case (Inl x)
        with Some True have "alerts (fst (on_message now stamp emitStamp topic parsed st)) =
           alert_record now stamp data # take (length (alerts st)) (alerts st)"
          by (simp add: alerts_on_message)
        then show ?thesis by blast
      next
        case (Inr sev)
        with Some True have "alerts (fst (on_message now stamp emitStamp topic parsed st)) =
           alert_record now stamp data # take 49 (alerts st)"
          by (simp add: alerts_on_message)
        then show ?thesis by blast
      qed
      with Message Some True show ?thesis by (simp add: arrivals_def)
    qed
  qed
next
  case (PostAcknowledge now alertId)
  have "\<forall>i < length (alerts st). carries_on (alerts st ! i) (alerts (fst (step e st)) ! i)"
  proof (intro allI impI)
    fix i assume "i < length (alerts st)"
    from assign_found_nth [OF this, of "has_id (JStr alertId)" "http_acknowledged now"]
    have "carries_on (alerts st ! i)
            (assign_found (has_id (JStr alertId)) (http_acknowledged now) (alerts st) ! i)"
      by (auto simp: carries_on_refl carries_on_http)
    then show "carries_on (alerts st ! i) (alerts (fst (step e st)) ! i)"
      using PostAcknowledge
      by (simp add: post_acknowledge_def carries_on_refl split: option.splits)
  qed
  with PostAcknowledge show ?thesis
    by (simp add: arrivals_def post_acknowledge_def length_assign_found split: option.splits)
next
  case (SocketAcknowledge alertId)
  have "\<forall>i < length (alerts st). carries_on (alerts st ! i) (alerts (fst (step e st)) ! i)"
  proof (intro allI impI)
    fix i assume "i < length (alerts st)"
    from assign_found_nth [OF this, of "has_id alertId" "set_prop ''acknowledged'' (JBool True)"]
    have "carries_on (alerts st ! i)
            (assign_found (has_id alertId) (set_prop ''acknowledged'' (JBool True)) (alerts st) ! i)"
      by (auto simp: carries_on_refl carries_on_socket)
    then show "carries_on (alerts st ! i) (alerts (fst (step e st)) ! i)"
      using SocketAcknowledge
      by (simp add: socket_acknowledge_def carries_on_refl split: option.splits)
  qed
  with SocketAcknowledge show ?thesis
    by (simp add: arrivals_def socket_acknowledge_def length_assign_found split: option.splits)
qed (simp_all add: arrivals_def carries_on_refl)

lemma alerts_step_carries:
  assumes "i < length (alerts st)" and "i + arrivals [e] < length (alerts (fst (step e st)))"
  shows "carries_on (alerts st ! i) (alerts (fst (step e st)) ! (i + arrivals [e]))"
  using alerts_step [of e st]
proof
  assume "arrivals [e] = 0 \<and> length (alerts (fst (step e st))) = length (alerts st) \<and>
      (\<forall>i < length (alerts st). carries_on (alerts st ! i) (alerts (fst (step e st)) ! i))"
  with assms show ?thesis by simp
next
  assume a: "arrivals [e] = 1 \<and> (\<exists>r n. alerts (fst (step e st)) = r # take n (alerts st))"
  then obtain r n where s: "alerts (fst (step e st)) = r # take n (alerts st)" by blast
  with assms a have "i < n" by simp
  with s a show ?thesis by (simp add: carries_on_refl)
qed

lemma length_alerts_step:
  "length (alerts (fst (step e st))) \<le> length (alerts st) + arrivals [e]"
  using alerts_step [of e st] by auto

lemma length_alerts_run:
  "length (alerts (fst (run evs st))) \<le> length (alerts st) + arrivals evs"
proof (induction evs arbitrary: st)
  case Nil
  show ?case by (simp add: arrivals_def)
next
  case (Cons e es)
  from Cons.IH [of "fst (step e st)"] length_alerts_step [of e st] arrivals_Cons [of e es]
  have "length (alerts (fst (run es (fst (step e st))))) \<le> length (alerts st) + arrivals (e # es)"
    by linarith
  then show ?case by (simp only: fst_run_Cons)
qed

lemma alerts_run_carries:
  assumes "i < length (alerts st)" and "i + arrivals evs < length (alerts (fst (run evs st)))"
  shows "carries_on (alerts st ! i) (alerts (fst (run evs st)) ! (i + arrivals evs))"
  using assms
proof (induction evs arbitrary: st i)
  case Nil
  then show ?case by (simp add: arrivals_def carries_on_refl)
next
  case (Cons e es)
  let ?st1 = "fst (step e st)"
  let ?i1 = "i + arrivals [e]"
  from Cons.prems(2) have l: "?i1 + arrivals es < length (alerts (fst (run es ?st1)))"
    by (simp only: fst_run_Cons arrivals_Cons [of e es] add.assoc)
  with length_alerts_run [of es ?st1] have i1: "?i1 < length (alerts ?st1)" by simp
  from alerts_step_carries [OF Cons.prems(1) i1]
  have "carries_on (alerts st ! i) (alerts ?st1 ! ?i1)" .
  moreover from Cons.IH [OF i1 l]
  have "carries_on (alerts ?st1 ! ?i1) (alerts (fst (run es ?st1)) ! (?i1 + arrivals es))" .
  ultimately have "carries_on (alerts st ! i) (alerts (fst (run es ?st1)) ! (?i1 + arrivals es))"
    by (rule carries_on_trans)
  then show ?case
    by (simp only: fst_run_Cons arrivals_Cons [of e es] add.assoc)
qed

text \<open>
  Claim C8. Every event puts at most one alert in front of the list, so the alert at
  index \<open>i\<close> is, after the events \<open>evs\<close>, at index \<open>i + arrivals evs\<close> if it is still in
  the list. There it has the same properties except \<^verbatim>\<open>acknowledged\<close> and
  \<^verbatim>\<open>acknowledgedAt\<close>, and if it was acknowledged before it is acknowledged after: no
  sequence of bus messages, acknowledgment requests, subscriber acknowledgments,
  connections and data requests takes the flag back to false.
\<close>

theorem C8_acknowledged_stays:
  assumes "i < length (alerts st)" and "i + arrivals evs < length (alerts (fst (run evs st)))"
  shows "(acked (alerts st ! i) \<longrightarrow> acked (alerts (fst (run evs st)) ! (i + arrivals evs))) \<and>
         (\<forall>k. k \<noteq> ''acknowledged'' \<and> k \<noteq> ''acknowledgedAt'' \<longrightarrow>
              get_prop (alerts (fst (run evs st)) ! (i + arrivals evs)) k = get_prop (alerts st ! i) k)"
  using alerts_run_carries [OF assms] by (simp add: carries_on_def)

theorem C8_acknowledged_stays_witness:
  "0 < length (alerts acknowledged_alert) \<and>
   0 + arrivals later_events < length (alerts (fst (run later_events acknowledged_alert))) \<and>
   arrivals later_events = 2 \<and>
   acked (alerts acknowledged_alert ! 0) \<and>
   acked (alerts (fst (run later_events acknowledged_alert)) ! (0 + arrivals later_events)) \<and>
   get_prop (alerts (fst (run later_events acknowledged_alert)) ! (0 + arrivals later_events)) ''id'' =
     JStr ''alert_1''"
proof -
  have a: "0 < length (alerts acknowledged_alert)" by code_simp
  have b: "0 + arrivals later_events < length (alerts (fst (run later_events acknowledged_alert)))"
    by code_simp
  have c: "acked (alerts acknowledged_alert ! 0)" by code_simp
  have d: "arrivals later_events = 2" by code_simp
  have e: "get_prop (alerts acknowledged_alert ! 0) ''id'' = JStr ''alert_1''" by code_simp
  from C8_acknowledged_stays [OF a b] a b c d e show ?thesis by simp
qed

section \<open>Identifiers from the millisecond clock\<close>

lemma key_in_set_prop: "k \<in> fst ` set (set_prop k v ps)"
  by (induction ps) auto

lemma length_set_prop_present: "k \<in> fst ` set ps \<Longrightarrow> length (set_prop k v ps) = length ps"
  by (induction ps) auto

lemma sensors_same_key:
  assumes "length (sensors st) \<le> 100" and "''sensor_'' @ dec now \<in> fst ` set (sensors st)"
  shows "sensors (handleSensorData now stamp data st) =
           set_prop (''sensor_'' @ dec now) (sensor_record stamp data) (sensors st)"
  using assms length_set_prop_present [of "''sensor_'' @ dec now" "sensors st" "sensor_record stamp data"]
  by (simp add: handleSensorData_def Let_def keys_def)

lemma sensors_handleSensorData_eq:
  "sensors (handleSensorData now stamp data st) =
     (if length (set_prop (''sensor_'' @ dec now) (sensor_record stamp data) (sensors st)) > 100
      then del_prop (keys (set_prop (''sensor_'' @ dec now) (sensor_record stamp data) (sensors st)) ! 0)
             (set_prop (''sensor_'' @ dec now) (sensor_record stamp data) (sensors st))
      else set_prop (''sensor_'' @ dec now) (sensor_record stamp data) (sensors st))"
  by (simp add: handleSensorData_def Let_def keys_def)

lemma sensor_key_stored:
  assumes "length (sensors st) \<le> 100"
  shows "''sensor_'' @ dec now \<in> fst ` set (sensors (handleSensorData now stamp data st))"
proof (cases "''sensor_'' @ dec now \<in> fst ` set (sensors st)")
  case True
  from sensors_same_key [OF assms True, of stamp data] key_in_set_prop show ?thesis by simp
next
  case False
  let ?k = "''sensor_'' @ dec now"
  let ?v = "sensor_record stamp data"
  let ?zs = "sensors st @ [(?k, ?v)]"
  from False have zs: "set_prop ?k ?v (sensors st) = ?zs" by (rule set_prop_absent)
  have "?k \<in> fst ` set (if length ?zs > 100 then del_prop (keys ?zs ! 0) ?zs else ?zs)"
  proof (cases "length ?zs > 100")
    case l: False
    then show ?thesis by simp
  next
    case l: True
    then obtain p ps where ps: "sensors st = p # ps" by (cases "sensors st") auto
    with False have "fst p \<noteq> ?k" by auto
    then have "(?k, ?v) \<in> set (del_prop (keys ?zs ! 0) ?zs)"
      by (simp add: del_prop_def keys_def ps)
    then have "?k \<in> fst ` set (del_prop (keys ?zs ! 0) ?zs)" by (rule rev_image_eqI) simp
    with l show ?thesis by simp
  qed
  then show ?thesis unfolding sensors_handleSensorData_eq zs .
qed

lemma alerts_after_alert:
  "alerts (fst (on_message now stamp emitStamp ''invernadero/alertas/emergentes'' (Some data) st)) =
     alert_record now stamp data # take 49 (alerts st) \<or>
   alerts (fst (on_message now stamp emitStamp ''invernadero/alertas/emergentes'' (Some data) st)) =
     alert_record now stamp data # alerts st"
  by (simp add: alerts_on_message split: sum.splits)

lemma alerts_same_ms_alerts:
  "\<exists>zs. alerts (same_ms_alerts now s1 e1 d1 s2 e2 d2 st) =
          alert_record now s2 d2 # alert_record now s1 d1 # zs"
proof -
  let ?st1 = "fst (on_message now s1 e1 ''invernadero/alertas/emergentes'' (Some d1) st)"
  from alerts_after_alert [of now s1 e1 d1 st]
  obtain ys where 1: "alerts ?st1 = alert_record now s1 d1 # ys" by blast
  from alerts_after_alert [of now s2 e2 d2 ?st1]
  have "alerts (same_ms_alerts now s1 e1 d1 s2 e2 d2 st) =
          alert_record now s2 d2 # alert_record now s1 d1 # take 48 ys \<or>
        alerts (same_ms_alerts now s1 e1 d1 s2 e2 d2 st) =
          alert_record now s2 d2 # alert_record now s1 d1 # ys"
    by (simp add: same_ms_alerts_def 1)
  then show ?thesis by blast
qed

text \<open>
  Claim C9, as amended. The key of a sensor reading and the id assigned to an alert are
  the decimal text of \<^verbatim>\<open>Date.now()\<close> after a fixed prefix. In a state that holds at most 100 readings (every
  reachable state does), a second reading ingested at the same clock value finds the key
  of the first in the collection and replaces its record: no entry is added. Two alerts
  ingested at the same clock value, with payloads that have no \<^verbatim>\<open>id\<close> of their own, are
  both stored with the same id, the later one first; an acknowledgment of that id, by
  request or by a subscriber, changes the later one only, and the earlier one stays
  unacknowledged.
\<close>

theorem C9_same_millisecond:
  "(length (sensors st) \<le> 100 \<longrightarrow>
      ''sensor_'' @ dec now \<in> set (keys (sensors (handleSensorData now s1 d1 st))) \<and>
      sensors (handleSensorData now s2 d2 (handleSensorData now s1 d1 st)) =
        set_prop (''sensor_'' @ dec now) (sensor_record s2 d2) (sensors (handleSensorData now s1 d1 st)) \<and>
      keys (sensors (handleSensorData now s2 d2 (handleSensorData now s1 d1 st))) =
        keys (sensors (handleSensorData now s1 d1 st)) \<and>
      get_prop (sensors (handleSensorData now s2 d2 (handleSensorData now s1 d1 st)))
        (''sensor_'' @ dec now) = sensor_record s2 d2) \<and>
   (''id'' \<notin> set (keys (own_props d1)) \<and> ''id'' \<notin> set (keys (own_props d2)) \<longrightarrow>
      alerts (same_ms_alerts now s1 e1 d1 s2 e2 d2 st) ! 0 = alert_record now s2 d2 \<and>
      alerts (same_ms_alerts now s1 e1 d1 s2 e2 d2 st) ! 1 = alert_record now s1 d1 \<and>
      get_prop (alert_record now s2 d2) ''id'' = JStr (''alert_'' @ dec now) \<and>
      get_prop (alert_record now s1 d1) ''id'' = JStr (''alert_'' @ dec now) \<and>
      get_prop (alert_record now s1 d1) ''acknowledged'' = JBool False \<and>
      alerts (fst (post_acknowledge t (''alert_'' @ dec now) (same_ms_alerts now s1 e1 d1 s2 e2 d2 st))) =
        (alerts (same_ms_alerts now s1 e1 d1 s2 e2 d2 st))
          [0 := http_acknowledged t (alert_record now s2 d2)] \<and>
      alerts (fst (socket_acknowledge (JStr (''alert_'' @ dec now))
                     (same_ms_alerts now s1 e1 d1 s2 e2 d2 st))) =
        (alerts (same_ms_alerts now s1 e1 d1 s2 e2 d2 st))
          [0 := set_prop ''acknowledged'' (JBool True) (alert_record now s2 d2)])"
proof (intro conjI impI)
  let ?k = "''sensor_'' @ dec now"
  let ?st1 = "handleSensorData now s1 d1 st"
  assume b: "length (sensors st) \<le> 100"
  then have b1: "length (sensors ?st1) \<le> 100" by (rule sensors_handle_bound)
  from b have k: "?k \<in> fst ` set (sensors ?st1)" by (rule sensor_key_stored)
  then show "?k \<in> set (keys (sensors ?st1))" by (simp add: keys_def)
  from sensors_same_key [OF b1 k]
  show e: "sensors (handleSensorData now s2 d2 ?st1) = set_prop ?k (sensor_record s2 d2) (sensors ?st1)" .
  from k show "keys (sensors (handleSensorData now s2 d2 ?st1)) = keys (sensors ?st1)"
    unfolding e by (rule keys_set_prop_present)
  show "get_prop (sensors (handleSensorData now s2 d2 ?st1)) ?k = sensor_record s2 d2"
    unfolding e by (rule get_prop_set_prop_same)
next
  let ?st2 = "same_ms_alerts now s1 e1 d1 s2 e2 d2 st"
  let ?r1 = "alert_record now s1 d1"
  let ?r2 = "alert_record now s2 d2"
  let ?id = "JStr (''alert_'' @ dec now)"
  assume "''id'' \<notin> set (keys (own_props d1)) \<and> ''id'' \<notin> set (keys (own_props d2))"
  then have n1: "''id'' \<notin> fst ` set (own_props d1)" and n2: "''id'' \<notin> fst ` set (own_props d2)"
    by (simp_all add: keys_def)
  from alerts_same_ms_alerts [of now s1 e1 d1 s2 e2 d2 st]
  obtain zs where a: "alerts ?st2 = ?r2 # ?r1 # zs" ..
  from a show "alerts ?st2 ! 0 = ?r2" by simp
  from a show "alerts ?st2 ! 1 = ?r1" by simp
  from n2 show i2: "get_prop ?r2 ''id'' = ?id" by (simp only: alert_record_id if_False)
  from n1 show "get_prop ?r1 ''id'' = ?id" by (simp only: alert_record_id if_False)
  show "get_prop ?r1 ''acknowledged'' = JBool False" by (rule alert_record_acknowledged)
  from i2 have h: "has_id ?id ?r2" by (simp add: has_id_def)
  with a have f: "find (has_id ?id) (alerts ?st2) = Some ?r2" by simp
  from h a have g: "\<And>f. assign_found (has_id ?id) f (alerts ?st2) = (alerts ?st2)[0 := f ?r2]" by simp
  from post_acknowledge_found [OF f, of t]
  show "alerts (fst (post_acknowledge t (''alert_'' @ dec now) ?st2)) =
          (alerts ?st2)[0 := http_acknowledged t ?r2]"
    by (simp only: g fst_conv) simp
  show "alerts (fst (socket_acknowledge ?id ?st2)) =
          (alerts ?st2)[0 := set_prop ''acknowledged'' (JBool True) ?r2]"
    unfolding socket_acknowledge_def f g by simp
qed

theorem C9_same_millisecond_witness:
  "sensors (handleSensorData 5 6 (reading 2) (handleSensorData 5 5 (reading 1) (dashboardData0 0 0 0))) =
     [(''sensor_5'', sensor_record 6 (reading 2))] \<and>
   alerts (fst (post_acknowledge 9 ''alert_5''
                 (same_ms_alerts 5 5 5 (JObj [(''severity'', JStr ''CRITICAL'')]) 6 6 (JObj [])
                    (dashboardData0 0 0 0)))) =
     [[(''id'', JStr ''alert_5''), (''timestamp'', JDate 6), (''acknowledged'', JBool True),
       (''acknowledgedAt'', JDate 9)],
      [(''id'', JStr ''alert_5''), (''severity'', JStr ''CRITICAL''), (''timestamp'', JDate 5),
       (''acknowledged'', JBool False)]]"
proof
  let ?st = "dashboardData0 0 0 0"
  let ?d1 = "JObj [(''severity'', JStr ''CRITICAL'')]"
  let ?st2 = "same_ms_alerts 5 5 5 ?d1 6 6 (JObj []) ?st"
  note c = C9_same_millisecond [where st = ?st and now = 5 and ?s1.0 = 5 and ?s2.0 = 6 and t = 9
      and ?e1.0 = 5 and ?e2.0 = 6]
  have b: "length (sensors ?st) \<le> 100" by (simp add: dashboardData0_def)
  have k: "''sensor_'' @ dec 5 = ''sensor_5''" by code_simp
  have s1: "sensors (handleSensorData 5 5 (reading 1) ?st) = [(''sensor_5'', sensor_record 5 (reading 1))]"
    by code_simp
  from c [of "reading 1" "reading 2", THEN conjunct1, THEN mp, OF b]
  have "sensors (handleSensorData 5 6 (reading 2) (handleSensorData 5 5 (reading 1) ?st)) =
        set_prop (''sensor_'' @ dec 5) (sensor_record 6 (reading 2))
          (sensors (handleSensorData 5 5 (reading 1) ?st))"
    by (elim conjE)
  then show "sensors (handleSensorData 5 6 (reading 2) (handleSensorData 5 5 (reading 1) ?st)) =
     [(''sensor_5'', sensor_record 6 (reading 2))]"
    unfolding s1 k by simp
  have n: "''id'' \<notin> set (keys (own_props ?d1)) \<and> ''id'' \<notin> set (keys (own_props (JObj [])))"
    by (simp add: keys_def)
  have k2: "''alert_'' @ dec 5 = ''alert_5''" by code_simp
  have a2: "alerts ?st2 =
     [[(''id'', JStr ''alert_5''), (''timestamp'', JDate 6), (''acknowledged'', JBool False)],
      [(''id'', JStr ''alert_5''), (''severity'', JStr ''CRITICAL''), (''timestamp'', JDate 5),
       (''acknowledged'', JBool False)]]"
    by code_simp
  have h: "http_acknowledged 9 (alert_record 5 6 (JObj [])) =
     [(''id'', JStr ''alert_5''), (''timestamp'', JDate 6), (''acknowledged'', JBool True),
       (''acknowledgedAt'', JDate 9)]"
    by code_simp
  from c [of ?d1 "JObj []", THEN conjunct2, THEN mp, OF n]
  have "alerts (fst (post_acknowledge 9 (''alert_'' @ dec 5) ?st2)) =
          (alerts ?st2)[0 := http_acknowledged 9 (alert_record 5 6 (JObj []))]"
    by (elim conjE)
  then show "alerts (fst (post_acknowledge 9 ''alert_5'' ?st2)) =
     [[(''id'', JStr ''alert_5''), (''timestamp'', JDate 6), (''acknowledged'', JBool True),
       (''acknowledgedAt'', JDate 9)],
      [(''id'', JStr ''alert_5''), (''severity'', JStr ''CRITICAL''), (''timestamp'', JDate 5),
       (''acknowledged'', JBool False)]]"
    unfolding a2 k2 h by simp
qed

text \<open>
  Claim C9 as stated fails for alert payloads with an \<^verbatim>\<open>id\<close> of their own: the payloads
  \<^verbatim>\<open>{"id": "A"}\<close> and \<^verbatim>\<open>{"id": "B"}\<close> ingested in the same millisecond 5 are stored with
  the different ids \<^verbatim>\<open>'B'\<close> and \<^verbatim>\<open>'A'\<close>, and an acknowledgment of \<^verbatim>\<open>alert_5\<close> finds no
  alert: the request is answered with status 404 and the subscriber's action has no
  effect.
\<close>

theorem C9_counterexample:
  "get_prop (alerts (same_ms_alerts 5 5 5 (JObj [(''id'', JStr ''A'')]) 6 6 (JObj [(''id'', JStr ''B'')])
                       (dashboardData0 0 0 0)) ! 0) ''id'' = JStr ''B'' \<and>
   get_prop (alerts (same_ms_alerts 5 5 5 (JObj [(''id'', JStr ''A'')]) 6 6 (JObj [(''id'', JStr ''B'')])
                       (dashboardData0 0 0 0)) ! 1) ''id'' = JStr ''A'' \<and>
   snd (post_acknowledge 9 ''alert_5''
          (same_ms_alerts 5 5 5 (JObj [(''id'', JStr ''A'')]) 6 6 (JObj [(''id'', JStr ''B'')])
             (dashboardData0 0 0 0))) =
     [ResJson 404 (JObj [(''error'', JStr ''Alert not found'')])] \<and>
   snd (socket_acknowledge (JStr ''alert_5'')
          (same_ms_alerts 5 5 5 (JObj [(''id'', JStr ''A'')]) 6 6 (JObj [(''id'', JStr ''B'')])
             (dashboardData0 0 0 0))) = []"
  by code_simp

section \<open>The alert list without throwing payloads\<close>

text \<open>
  The bound of 50 does hold along every event sequence in which no alert payload is
  \<^verbatim>\<open>null\<close> (or \<^verbatim>\<open>undefined\<close>, which no JSON text denotes): then \<^verbatim>\<open>data.severity\<close> never
  throws and every insertion is followed by the truncation.
\<close>

lemma alerts_step_bound:
  assumes "length (alerts st) \<le> 50"
    and "JNull \<notin> set (alert_payloads [e])" and "JUndefined \<notin> set (alert_payloads [e])"
  shows "length (alerts (fst (step e st))) \<le> 50"
proof (cases e)
  case (Message now stamp emitStamp topic parsed)
  show ?thesis
  proof (cases parsed)
    case None
    with Message assms(1) show ?thesis by (simp add: alerts_on_message)
  next
    case (Some data)
    show ?thesis
    proof (cases "topic = ''invernadero/alertas/emergentes''")
      case False
      with Message Some assms(1) show ?thesis by (simp add: alerts_on_message)
    next
      case True
      with Message Some assms(2,3) have "data \<noteq> JNull" and "data \<noteq> JUndefined" by simp_all
      with data_severity_Inl [of data] obtain sev where "data_severity data = Inr sev"
        by (cases "data_severity data") auto
      with Message Some True show ?thesis by (simp add: alerts_on_message)
    qed
  qed
next
  case (PostAcknowledge now alertId)
  with assms(1) show ?thesis
    by (simp add: post_acknowledge_def length_assign_found split: option.splits)
next
  case (SocketAcknowledge alertId)
  with assms(1) show ?thesis
    by (simp add: socket_acknowledge_def length_assign_found split: option.splits)
qed (insert assms(1), simp_all)

lemma alerts_bounded_without_null:
  assumes "length (alerts st) \<le> 50"
    and "JNull \<notin> set (alert_payloads evs)" and "JUndefined \<notin> set (alert_payloads evs)"
  shows "length (alerts (fst (run evs st))) \<le> 50"
  using assms
proof (induction evs arbitrary: st)
  case Nil
  then show ?case by simp
next
  case (Cons e es)
  from Cons.prems(2,3) alert_payloads_Cons [of e es]
  have e: "JNull \<notin> set (alert_payloads [e])" "JUndefined \<notin> set (alert_payloads [e])"
    and es: "JNull \<notin> set (alert_payloads es)" "JUndefined \<notin> set (alert_payloads es)"
    by auto
  from alerts_step_bound [OF Cons.prems(1) e]
  have "length (alerts (fst (step e st))) \<le> 50" .
  from Cons.IH [OF this es] show ?case by (simp only: fst_run_Cons)
qed

end
